theory Spec2Isabelle
  imports Main "HOL-Library.Word"
begin

unbundle bit_operations_syntax

section \<open>Data model of package powork\<close>

text \<open>
  Go's \<open>byte\<close> is an 8-bit word. Go's \<open>int64\<close>, and \<open>int\<close> on a 64-bit target, are
  64-bit words: \<open>+\<close> and \<open>-\<close> wrap around, \<open>sint\<close> gives the signed reading.
\<close>

type_synonym byte = "8 word"
type_synonym int64 = "64 word"

text \<open>
  An \<open>error\<close> value is either one made by \<open>errors.New\<close> inside the package (identified by
  its message) or one handed back by the hash's \<open>Write\<close>.
\<close>

datatype error = errors_New string | hash_error string

text \<open>
  A \<open>hash.Hash\<close> interface value: the object's current state together with its
  methods. \<open>Write\<close> returns the error of Go's \<open>(n, err)\<close> (the code ignores \<open>n\<close>);
  \<open>Sum(b)\<close> appends the digest to \<open>b\<close> and leaves the state alone. The methods, and
  the factory \<open>getHash\<close> of a worker, are functions of their arguments: a hash behaves
  the same way every time it is used.
\<close>

record 's Hash =
  state :: 's
  Reset_impl :: "'s \<Rightarrow> 's"
  Write_impl :: "'s \<Rightarrow> byte list \<Rightarrow> 's \<times> error option"
  Sum_impl :: "'s \<Rightarrow> byte list \<Rightarrow> byte list"

definition hash_Reset :: "'s Hash \<Rightarrow> 's Hash" where
  "hash_Reset h = h\<lparr>state := Reset_impl h (state h)\<rparr>"

definition hash_Write :: "'s Hash \<Rightarrow> byte list \<Rightarrow> 's Hash \<times> error option" where
  "hash_Write h p = (case Write_impl h (state h) p of (s, err) \<Rightarrow> (h\<lparr>state := s\<rparr>, err))"

definition hash_Sum :: "'s Hash \<Rightarrow> byte list \<Rightarrow> byte list" where
  "hash_Sum h b = Sum_impl h (state h) b"

text \<open>
  \<open>binary.Write(w, binary.LittleEndian, v)\<close> for an \<open>int64\<close> value: the eight bytes
  \<open>byte(v), byte(v>>8), ..., byte(v>>56)\<close> of \<open>LittleEndian.PutUint64\<close>, handed to the
  writer in one \<open>Write\<close> whose error is returned.
\<close>

definition PutUint64 :: "int64 \<Rightarrow> byte list" where
  "PutUint64 v =
     [ucast v, ucast (drop_bit 8 v), ucast (drop_bit 16 v), ucast (drop_bit 24 v),
      ucast (drop_bit 32 v), ucast (drop_bit 40 v), ucast (drop_bit 48 v), ucast (drop_bit 56 v)]"

definition binary_Write :: "'s Hash \<Rightarrow> int64 \<Rightarrow> 's Hash \<times> error option" where
  "binary_Write h v = hash_Write h (PutUint64 v)"

text \<open>The structs \<open>Worker\<close> and \<open>PoWork\<close> (\<open>proof\<close> is a keyword, so the field is \<open>proof'\<close>).\<close>

record 's Worker =
  difficulty :: int64
  getHash :: "unit \<Rightarrow> 's Hash"
  maxWait :: int64

record PoWork =
  msg :: "byte list"
  proof' :: int64
  requiredIterations :: int64

section \<open>Configuration\<close>

definition SetDifficulty :: "'s Worker \<Rightarrow> int64 \<Rightarrow> 's Worker \<times> error option" where
  "SetDifficulty p d =
     (let p' = p\<lparr>difficulty := d\<rparr>
      in if sint d \<le> 0 then (p', Some (errors_New ''Difficulty must be at least 1''))
         else (p', None))"

definition SetTimeout :: "'s Worker \<Rightarrow> int64 \<Rightarrow> 's Worker \<times> error option" where
  "SetTimeout p milliseconds =
     (let p' = p\<lparr>maxWait := milliseconds\<rparr>
      in if sint (maxWait p') < 0
         then (p', Some (errors_New ''Timeout must be greater than or equal to 0''))
         else (p', None))"

definition SetHashGetter :: "'s Worker \<Rightarrow> (unit \<Rightarrow> 's Hash) \<Rightarrow> 's Worker" where
  "SetHashGetter p h = p\<lparr>getHash := h\<rparr>"

section \<open>The bit scan of ValidatePoWork\<close>

text \<open>
  The inner loop \<open>for i := 0; i < 8; i++\<close> over one byte \<open>x\<close> of the sum. It either
  returns from ValidatePoWork (\<open>Inl\<close> with the returned pair) or falls through to the
  next byte with the remaining count (\<open>Inr\<close>). The test \<open>(x<<1)>>1 == x\<close> is on
  \<open>uint8\<close> values.
\<close>

function scan_byte :: "nat \<Rightarrow> byte \<Rightarrow> int64 \<Rightarrow> (bool \<times> error option) + int64" where
  "scan_byte i x N =
     (if i < 8 then
        (if drop_bit 1 (push_bit 1 x) = x then
           (let N' = N - 1; x' = push_bit 1 x
            in if N' = 0 then Inl (True, None) else scan_byte (i + 1) x' N')
         else Inl (False, None))
      else Inr N)"
  by pat_completeness auto
termination
  by (relation "measure (\<lambda>(i, x, N). 8 - i)") auto

declare scan_byte.simps [simp del]

text \<open>The outer loop \<open>for _, x := range sum\<close> and the return after it.\<close>

fun scan_sum :: "byte list \<Rightarrow> int64 \<Rightarrow> bool \<times> error option" where
  "scan_sum [] N = (False, Some (errors_New ''Buffer overrun: not enough bits in hash''))"
| "scan_sum (x # xs) N =
     (case scan_byte 0 x N of
        Inl r \<Rightarrow> r
      | Inr N' \<Rightarrow> scan_sum xs N')"

section \<open>ValidatePoWork\<close>

definition ValidatePoWork :: "'s Worker \<Rightarrow> PoWork \<Rightarrow> bool \<times> error option" where
  "ValidatePoWork p pow =
     (let hash = hash_Reset (getHash p ())
      in case hash_Write hash (msg pow) of
           (hash1, Some err) \<Rightarrow> (False, Some err)
         | (hash1, None) \<Rightarrow>
             (case binary_Write hash1 (proof' pow) of
                (hash2, Some err) \<Rightarrow> (False, Some err)
              | (hash2, None) \<Rightarrow> scan_sum (hash_Sum hash2 []) (difficulty p)))"

section \<open>DoProofFor\<close>

text \<open>
  \<open>time.After(time.Duration(p.maxWait) * time.Millisecond)\<close>: the duration in
  nanoseconds, an \<open>int64\<close> product that wraps. The runtime sends a value on the
  channel after at least that much time has passed, never before; how soon after is up to
  the runtime (from Go 1.23 on a due timer is found by the receive itself, earlier
  runtimes send when the scheduler next serves its timers). Both are parameters of the
  model: at the \<open>select\<close> that follows the \<open>k\<close>-th failed attempt (counting from 0),
  \<open>clock rt k\<close> is the number of nanoseconds that have passed since the call of
  \<open>time.After\<close>, and \<open>delivered rt k\<close> says whether the runtime has by then sent the
  value of a timer that is due.
\<close>

record timer =
  clock :: "nat \<Rightarrow> nat"
  delivered :: "nat \<Rightarrow> bool"

definition timeout_duration :: "'s Worker \<Rightarrow> int" where
  "timeout_duration p = sint (maxWait p * 1000000)"

text \<open>The \<open>case <-timeoutChannel\<close> of the \<open>select\<close> is taken when the channel holds a value.\<close>

definition timeout_ready :: "'s Worker \<Rightarrow> timer \<Rightarrow> nat \<Rightarrow> bool" where
  "timeout_ready p rt k = (timeout_duration p \<le> int (clock rt k) \<and> delivered rt k)"

text \<open>
  The \<open>for\<close> loop of DoProofFor on the state \<open>toR\<close>; it may run forever, so the result
  is an option, \<open>None\<close> for a loop that never returns. \<open>Inl err\<close> is the return
  \<open>(nil, err)\<close>, \<open>Inr toR\<close> the return \<open>(toR, nil)\<close>.
\<close>

partial_function (option) search_loop ::
  "'s Worker \<Rightarrow> timer \<Rightarrow> nat \<Rightarrow> PoWork \<Rightarrow> (error + PoWork) option" where
  "search_loop p rt k toR =
     (case ValidatePoWork p toR of
        (res, Some err) \<Rightarrow> Some (Inl err)
      | (res, None) \<Rightarrow>
          if res then Some (Inr toR)
          else (let toR' = toR\<lparr>requiredIterations := requiredIterations toR + 1,
                                  proof' := proof' toR + 1\<rparr>
                in if timeout_ready p rt k
                   then Some (Inl (errors_New ''Timed out while calculating proof of work''))
                   else search_loop p rt (k + 1) toR'))"

definition DoProofFor ::
  "'s Worker \<Rightarrow> timer \<Rightarrow> byte list \<Rightarrow> (error + PoWork) option" where
  "DoProofFor p rt m =
     search_loop p rt 0 \<lparr>msg = m, proof' = 0, requiredIterations = 0\<rparr>"

section \<open>The specification's reading of a digest\<close>

text \<open>
  The bits of a digest in the order of the specification: bytes in order, each byte from
  its most significant bit to its least significant one. \<open>first_bits_zero n D\<close> says that
  the first \<open>n\<close> of them are all zero.
\<close>

definition byte_bits :: "byte \<Rightarrow> bool list" where
  "byte_bits x = map (\<lambda>i. bit x (7 - i)) [0..<8]"

definition digest_bits :: "byte list \<Rightarrow> bool list" where
  "digest_bits D = concat (map byte_bits D)"

definition first_bits_zero :: "nat \<Rightarrow> byte list \<Rightarrow> bool" where
  "first_bits_zero n D = list_all (\<lambda>b. \<not> b) (take n (digest_bits D))"

text \<open>
  The scan replayed on a list of bits, with the same wrapping counter; the loops of
  ValidatePoWork are shown below to compute exactly this on \<open>digest_bits\<close>.
\<close>

fun scan_bits :: "bool list \<Rightarrow> int64 \<Rightarrow> (bool \<times> error option) + int64" where
  "scan_bits [] N = Inr N"
| "scan_bits (b # bs) N =
     (if b then Inl (False, None)
      else if N - 1 = 0 then Inl (True, None)
      else scan_bits bs (N - 1))"

text \<open>
  The number of zero bits the scan has to see before its counter, decremented once per
  bit, becomes 0: \<open>N\<close> itself read as unsigned, and \<open>2 ^ 64\<close> for \<open>N = 0\<close>.
\<close>

definition zeros_needed :: "int64 \<Rightarrow> nat" where
  "zeros_needed N = (if N = 0 then 2 ^ 64 else unat N)"

text \<open>
  The specification's nonce encoding: the eight bytes, least significant first, of the
  two's-complement representation of a signed 64-bit integer \<open>i\<close>.
\<close>

definition le64_twos_complement :: "int \<Rightarrow> byte list" where
  "le64_twos_complement i = map (\<lambda>k. word_of_int ((i mod 2 ^ 64) div 256 ^ k)) [0..<8]"

text \<open>
  The state of the loop of DoProofFor after \<open>j\<close> more failed attempts: both counters
  incremented \<open>j\<close> times.
\<close>

definition advance :: "nat \<Rightarrow> PoWork \<Rightarrow> PoWork" where
  "advance j toR =
     toR\<lparr>requiredIterations := requiredIterations toR + of_nat j,
         proof' := proof' toR + of_nat j\<rparr>"

section \<open>Two hash capabilities to run the code on\<close>

text \<open>
  A hash that records the calls made on it: its state is the list of calls so far,
  \<open>Reset\<close> and \<open>Write\<close> append theirs, \<open>Write\<close> never fails, and the digest is any
  function \<open>digest\<close> of the calls recorded. The factory may hand it out with any calls
  \<open>earlier\<close> already made on it.
\<close>

datatype hash_call = Reset_call | Write_call "byte list"

definition logging_hash ::
  "(hash_call list \<Rightarrow> byte list) \<Rightarrow> hash_call list \<Rightarrow> hash_call list Hash" where
  "logging_hash digest earlier =
     \<lparr>state = earlier,
      Reset_impl = (\<lambda>s. s @ [Reset_call]),
      Write_impl = (\<lambda>s p. (s @ [Write_call p], None)),
      Sum_impl = (\<lambda>s b. b @ digest s)\<rparr>"

text \<open>
  A one-byte checksum: \<open>Reset\<close> sets the state to 3, \<open>Write\<close> folds every byte in with
  exclusive or, and the digest is the state. With an empty message the digest of nonce
  \<open>n\<close> is the low byte of \<open>n\<close> xor 3, so 3 is the first nonce with eight zero bits.
\<close>

definition xor3_hash :: "byte Hash" where
  "xor3_hash =
     \<lparr>state = 0,
      Reset_impl = (\<lambda>s. 3),
      Write_impl = (\<lambda>s p. (foldl (XOR) s p, None)),
      Sum_impl = (\<lambda>s b. b @ [s])\<rparr>"

text \<open>A worker on the checksum hash, with difficulty \<open>d\<close> and timeout \<open>t\<close>.\<close>

definition demo_worker :: "int64 \<Rightarrow> int64 \<Rightarrow> byte Worker" where
  "demo_worker d t = \<lparr>difficulty = d, getHash = (\<lambda>u. xor3_hash), maxWait = t\<rparr>"

section \<open>Properties of the bit scan\<close>

lemma bit_shl1: "bit (push_bit 1 x) n = (0 < n \<and> n < 8 \<and> bit x (n - 1))" for x :: byte
  unfolding bit_push_bit_iff by (auto simp: bit_imp_le_length dest: bit_imp_le_length)

lemma bit_shl1_shr1: "bit (drop_bit 1 (push_bit 1 x)) n = (n < 7 \<and> bit x n)" for x :: byte
  unfolding bit_drop_bit_eq bit_shl1 by auto

lemma top_bit_test: "(drop_bit 1 (push_bit 1 x) = x) = (\<not> bit x 7)" for x :: byte
proof
  assume h: "drop_bit 1 (push_bit 1 x) = x"
  have "\<not> bit (drop_bit 1 (push_bit 1 x)) 7"
    unfolding bit_shl1_shr1 by simp
  with h show "\<not> bit x 7" by simp
next
  assume h: "\<not> bit x 7"
  show "drop_bit 1 (push_bit 1 x) = x"
  proof (rule bit_word_eqI)
    fix n assume "n < LENGTH(8)"
    then show "bit (drop_bit 1 (push_bit 1 x)) n = bit x n"
      unfolding bit_shl1_shr1 using h by (cases "n = 7") auto
  qed
qed

lemma byte_bits_list:
  "byte_bits x = [bit x 7, bit x 6, bit x 5, bit x 4, bit x 3, bit x 2, bit x 1, bit x 0]"
  by (simp add: byte_bits_def upt_rec)

lemma byte_bits_shift:
  "byte_bits (push_bit 1 x) = tl (byte_bits x) @ [False]"
  unfolding byte_bits_list bit_shl1 by simp

lemma byte_bits_hd: "byte_bits x = bit x 7 # tl (byte_bits x)"
  unfolding byte_bits_list by simp

lemma length_byte_bits [simp]: "length (byte_bits x) = 8"
  by (simp add: byte_bits_def)

lemma scan_byte_step:
  "i < 8 \<Longrightarrow> scan_byte i x N =
     (if bit x 7 then Inl (False, None)
      else if N - 1 = 0 then Inl (True, None)
      else scan_byte (i + 1) (push_bit 1 x) (N - 1))"
  by (subst scan_byte.simps, simp only: top_bit_test Let_def, simp)

lemma scan_byte_end: "\<not> i < 8 \<Longrightarrow> scan_byte i x N = Inr N"
  by (subst scan_byte.simps) simp

lemma scan_byte_bits:
  "i \<le> 8 \<Longrightarrow> scan_byte i x N = scan_bits (take (8 - i) (byte_bits x)) N"
proof (induction i x N rule: scan_byte.induct)
  case (1 i x N)
  show ?case
  proof (cases "i < 8")
    case False
    then show ?thesis by (simp add: scan_byte_end)
  next
    case lt: True
    then obtain k where k: "8 - i = Suc k" by (cases "8 - i") auto
    have tk: "take (8 - i) (byte_bits x) = bit x 7 # take k (tl (byte_bits x))"
      by (subst byte_bits_hd) (simp add: k)
    show ?thesis
    proof (cases "bit x 7 \<or> N - 1 = 0")
      case True
      then show ?thesis unfolding scan_byte_step[OF lt] tk by auto
    next
      case False
      then have nb: "\<not> bit x 7" and nz: "N - 1 \<noteq> 0" by auto
      have e: "drop_bit 1 (push_bit 1 x) = x" using nb by (rule top_bit_test[THEN iffD2])
      have k7: "8 - (i + 1) = k" using k by simp
      have "scan_byte (i + 1) (push_bit 1 x) (N - 1)
              = scan_bits (take (8 - (i + 1)) (byte_bits (push_bit 1 x))) (N - 1)"
        using 1(1)[OF lt e refl refl nz] lt by simp
      also have "take (8 - (i + 1)) (byte_bits (push_bit 1 x)) = take k (tl (byte_bits x))"
        unfolding k7 byte_bits_shift using k by simp
      finally show ?thesis unfolding scan_byte_step[OF lt] tk using nb nz by simp
    qed
  qed
qed

lemma scan_bits_append:
  "scan_bits (as @ bs) N = (case scan_bits as N of Inl r \<Rightarrow> Inl r | Inr N' \<Rightarrow> scan_bits bs N')"
  by (induction as arbitrary: N) auto

lemma scan_sum_bits:
  "scan_sum D N =
     (case scan_bits (digest_bits D) N of
        Inl r \<Rightarrow> r
      | Inr N' \<Rightarrow> (False, Some (errors_New ''Buffer overrun: not enough bits in hash'')))"
proof (induction D arbitrary: N)
  case Nil
  show ?case by (simp add: digest_bits_def)
next
  case (Cons x D)
  have b: "scan_byte 0 x N = scan_bits (byte_bits x) N"
    using scan_byte_bits[of 0 x N] by simp
  show ?case
    unfolding scan_sum.simps b using Cons
    by (simp add: digest_bits_def scan_bits_append split: sum.splits)
qed

lemma zeros_needed_pos: "0 < zeros_needed N"
  by (simp add: zeros_needed_def unat_gt_0)

lemma zeros_needed_one: "N - 1 = 0 \<Longrightarrow> zeros_needed N = 1"
  by (simp add: zeros_needed_def)

lemma unat_m1_int64: "unat (- 1 :: int64) = 2 ^ 64 - 1"
  by (simp add: unsigned_minus_1_eq_mask mask_eq_exp_minus_1)

lemma zeros_needed_dec: "N - 1 \<noteq> 0 \<Longrightarrow> zeros_needed (N - 1) = zeros_needed N - 1"
  by (auto simp add: zeros_needed_def unat_minus_one unat_m1_int64)

lemma scan_bits_char:
  "scan_bits bs N =
     (if True \<in> set (take (zeros_needed N) bs) then Inl (False, None)
      else if zeros_needed N \<le> length bs then Inl (True, None)
      else Inr (N - of_nat (length bs)))"
proof (induction bs arbitrary: N)
  case Nil
  show ?case using zeros_needed_pos[of N] by simp
next
  case (Cons b bs)
  obtain c where c: "zeros_needed N = Suc c"
    using zeros_needed_pos[of N] by (cases "zeros_needed N") auto
  show ?case
  proof (cases b)
    case True
    then show ?thesis by (simp add: c)
  next
    case nb: False
    show ?thesis
    proof (cases "N - 1 = 0")
      case True
      then show ?thesis using nb zeros_needed_one[OF True] by simp
    next
      case False
      have d: "zeros_needed (N - 1) = c" using zeros_needed_dec[OF False] c by simp
      show ?thesis using nb False Cons[of "N - 1"] by (simp add: c d)
    qed
  qed
qed


lemma length_digest_bits: "length (digest_bits D) = 8 * length D"
  by (induction D) (simp_all add: digest_bits_def)

lemma scan_sum_char:
  "scan_sum D N =
     (if True \<in> set (take (zeros_needed N) (digest_bits D)) then (False, None)
      else if zeros_needed N \<le> 8 * length D then (True, None)
      else (False, Some (errors_New ''Buffer overrun: not enough bits in hash'')))"
  unfolding scan_sum_bits scan_bits_char length_digest_bits by simp

lemma uint_sint_int64: "uint N = sint N mod 2 ^ 64" for N :: int64
  by (simp add: uint_sint take_bit_eq_mod)

lemma zeros_needed_pos_difficulty:
  "1 \<le> sint N \<Longrightarrow> zeros_needed N = nat (sint N)"
proof -
  assume h: "1 \<le> sint N"
  have "sint N < 2 ^ 63" using sint_lt[of N] by simp
  then have "sint N mod 2 ^ 64 = sint N" using h by simp
  then have "uint N = sint N" by (simp add: uint_sint_int64)
  moreover have "N \<noteq> 0" using h by auto
  moreover have "unat N = nat (uint N)" by simp
  ultimately show ?thesis by (simp only: zeros_needed_def if_False)
qed

lemma pow63_le_nat: "(2::int) ^ 63 \<le> int n \<Longrightarrow> (2::nat) ^ 63 \<le> n"
  by simp

lemma zeros_needed_nonpos_difficulty:
  "sint N \<le> 0 \<Longrightarrow> 2 ^ 63 \<le> zeros_needed N"
proof (cases "N = 0")
  case True
  then show ?thesis by (simp add: zeros_needed_def)
next
  case False
  assume h: "sint N \<le> 0"
  have "sint N \<noteq> 0"
  proof
    assume "sint N = 0"
    then have "word_of_int (sint N) = (0 :: int64)" by (simp only: of_int_0)
    then show False using False by simp
  qed
  then have neg: "sint N < 0" using h by simp
  have lo: "- (2 ^ 63) \<le> sint N" using sint_ge[of N] by simp
  have "sint N mod 2 ^ 64 = (sint N + 2 ^ 64) mod 2 ^ 64" by simp
  also have "\<dots> = sint N + 2 ^ 64"
    using neg lo by (intro mod_pos_pos_trivial) auto
  finally have "uint N = sint N + 2 ^ 64" by (simp add: uint_sint_int64)
  then have "2 ^ 63 \<le> uint N" using lo by simp
  moreover have "uint N = int (unat N)" by simp
  ultimately have "(2::int) ^ 63 \<le> int (unat N)" by (simp only:)
  then have "2 ^ 63 \<le> unat N" by (rule pow63_le_nat)
  then show ?thesis using False by (simp add: zeros_needed_def)
qed

lemma list_all_not_iff: "list_all (\<lambda>b. \<not> b) bs = (True \<notin> set bs)"
  by (induction bs) auto

text \<open>
  Claim C1. For every digest \<open>D\<close> and every difficulty \<open>N\<close> with
  \<open>1 \<le> N \<le> bitlength D\<close>, the bit scan of ValidatePoWork returns \<open>true\<close> exactly
  when the first \<open>N\<close> bits of \<open>D\<close> (bytes in order, each from its most significant
  bit down) are all zero, and it returns no error.
\<close>

theorem scan_sum_in_range:
  assumes "1 \<le> sint N" and "sint N \<le> 8 * int (length D)"
  shows "scan_sum D N = (first_bits_zero (nat (sint N)) D, None)"
proof -
  have z: "zeros_needed N = nat (sint N)"
    using assms(1) by (rule zeros_needed_pos_difficulty)
  have le: "nat (sint N) \<le> 8 * length D" using assms by linarith
  show ?thesis
    unfolding scan_sum_char z first_bits_zero_def list_all_not_iff using le by simp
qed

theorem scan_sum_in_range_witness:
  "1 \<le> sint (9 :: int64) \<and> sint (9 :: int64) \<le> 8 * int (length [0, 127 :: byte])
   \<and> scan_sum [0, 127] 9 = (True, None)"
  using scan_sum_in_range [of 9 "[0, 127]"]
  by (simp add: first_bits_zero_def digest_bits_def byte_bits_list)

text \<open>
  Claim C3 says that a difficulty above the digest's bit length always ends in the
  buffer-overrun error. It does not: the scan stops at the first 1 bit with a plain
  \<open>false\<close>. Difficulty 9 on the one-byte digest \<open>0xFF\<close>:
\<close>

theorem scan_sum_beyond_digest_plain_false:
  "8 * int (length [255 :: byte]) < sint (9 :: int64) \<and> scan_sum [255] 9 = (False, None)"
  by (simp add: scan_byte.simps)

text \<open>
  Claim C3, amended. For a difficulty \<open>N\<close> above the bit length of the digest \<open>D\<close> the
  scan never returns \<open>true\<close>: it returns the buffer-overrun error exactly when every bit
  of \<open>D\<close> is zero, and a plain \<open>false\<close> with no error when \<open>D\<close> has a 1 bit.
\<close>

theorem scan_sum_beyond_digest:
  assumes "8 * int (length D) < sint N"
  shows "scan_sum D N =
           (False, if first_bits_zero (8 * length D) D
                   then Some (errors_New ''Buffer overrun: not enough bits in hash'')
                   else None)"
proof -
  have pos: "1 \<le> sint N" using assms by linarith
  have z: "zeros_needed N = nat (sint N)"
    using pos by (rule zeros_needed_pos_difficulty)
  have gt: "8 * length D < nat (sint N)" using assms by linarith
  show ?thesis
    unfolding scan_sum_char z first_bits_zero_def list_all_not_iff
    using gt by (simp add: length_digest_bits)
qed

theorem scan_sum_beyond_digest_witness:
  "8 * int (length [0 :: byte]) < sint (9 :: int64) \<and>
   scan_sum [0] 9 = (False, Some (errors_New ''Buffer overrun: not enough bits in hash''))"
  using scan_sum_beyond_digest [of "[0]" 9]
  by (simp add: first_bits_zero_def digest_bits_def byte_bits_list)

text \<open>
  Claim C8 says that difficulty 0 accepts every digest. The counter is decremented before
  it is compared with 0, so it starts at \<open>-1\<close> after the first zero bit and the scan of
  the digest \<open>0x00\<close> runs off its end:
\<close>

theorem scan_sum_zero_difficulty_overrun:
  "scan_sum [0] 0 = (False, Some (errors_New ''Buffer overrun: not enough bits in hash''))"
  by (simp add: scan_byte.simps)

text \<open>
  Claim C8, amended. With difficulty 0 the scan accepts no digest (of fewer than
  \<open>2 ^ 64\<close> bits): it returns a plain \<open>false\<close> when the digest has a 1 bit and the
  buffer-overrun error when all its bits are zero.
\<close>

theorem scan_sum_zero_difficulty:
  assumes "8 * length D < 2 ^ 64"
  shows "scan_sum D 0 =
           (False, if first_bits_zero (8 * length D) D
                   then Some (errors_New ''Buffer overrun: not enough bits in hash'')
                   else None)"
  unfolding scan_sum_char first_bits_zero_def list_all_not_iff
  using assms by (simp add: length_digest_bits zeros_needed_def)

theorem scan_sum_zero_difficulty_witness:
  "8 * length [0, 128 :: byte] < 2 ^ 64 \<and> scan_sum [0, 128] 0 = (False, None)"
  using scan_sum_zero_difficulty [of "[0, 128]"]
  by (simp add: first_bits_zero_def digest_bits_def byte_bits_list)

lemma scan_sum_nonpositive:
  assumes "sint N \<le> 0" and "8 * length D < 2 ^ 63"
  shows "scan_sum D N = (False, None)
       \<or> scan_sum D N = (False, Some (errors_New ''Buffer overrun: not enough bits in hash''))"
proof -
  have "2 ^ 63 \<le> zeros_needed N" using assms(1) by (rule zeros_needed_nonpos_difficulty)
  then have "\<not> zeros_needed N \<le> 8 * length D" using assms(2) by linarith
  then show ?thesis unfolding scan_sum_char by simp
qed

section \<open>The bytes fed to the hash, and the setters\<close>

lemma upt8: "[0..<8] = [0, 1, 2, 3, 4, 5, 6, 7 :: nat]"
  by (simp add: upt_rec)

lemma byte_of_int64:
  "(ucast (drop_bit n v) :: byte) = word_of_int ((sint v mod 2 ^ 64) div 2 ^ n)" for v :: int64
proof -
  have "(ucast (drop_bit n v) :: byte) = word_of_int (uint (drop_bit n v))"
    by simp
  also have "uint (drop_bit n v) = uint v div 2 ^ n"
    by (subst unsigned_drop_bit_eq) (simp add: drop_bit_eq_div bintr_uint[of 64 v, simplified])
  finally show ?thesis by (simp only: uint_sint_int64)
qed

lemma PutUint64_le64: "PutUint64 v = le64_twos_complement (sint v)"
  unfolding PutUint64_def le64_twos_complement_def upt8
  using byte_of_int64[of 0 v] byte_of_int64[of 8 v] byte_of_int64[of 16 v] byte_of_int64[of 24 v]
    byte_of_int64[of 32 v] byte_of_int64[of 40 v] byte_of_int64[of 48 v] byte_of_int64[of 56 v]
  by simp

lemma ValidatePoWork_logging_hash:
  "ValidatePoWork (p\<lparr>getHash := \<lambda>u. logging_hash digest earlier\<rparr>) pow =
     scan_sum
       (digest (earlier @ [Reset_call, Write_call (msg pow), Write_call (PutUint64 (proof' pow))]))
       (difficulty p)"
  by (simp add: ValidatePoWork_def hash_Reset_def hash_Write_def binary_Write_def hash_Sum_def
      logging_hash_def)

text \<open>
  The digest function is arbitrary, so the equation below tells any two call sequences
  apart. After the message \<open>[1]\<close> the nonces 5 and 77 are told apart by the digest that
  is \<open>0x00\<close> on the calls made for nonce 5 and \<open>0xFF\<close> on all others.
\<close>

lemma ValidatePoWork_tells_nonces_apart:
  "\<exists>digest.
     ValidatePoWork \<lparr>difficulty = 8, getHash = (\<lambda>u. logging_hash digest []), maxWait = 0\<rparr>
       \<lparr>msg = [1], proof' = 5, requiredIterations = 0\<rparr>
     \<noteq> ValidatePoWork \<lparr>difficulty = 8, getHash = (\<lambda>u. logging_hash digest []), maxWait = 0\<rparr>
       \<lparr>msg = [1], proof' = 77, requiredIterations = 0\<rparr>"
proof -
  let ?d = "\<lambda>calls. if calls = [Reset_call, Write_call [1], Write_call (PutUint64 5)]
                     then [0 :: byte] else [255]"
  let ?w = "\<lparr>difficulty = 8 :: int64, getHash = (\<lambda>u :: unit. logging_hash ?d []), maxWait = 0 :: int64\<rparr>"
  have five: "ValidatePoWork ?w \<lparr>msg = [1], proof' = 5, requiredIterations = 0\<rparr> = (True, None)"
    using ValidatePoWork_logging_hash [where p = ?w and digest = ?d and earlier = "[]"
        and pow = "\<lparr>msg = [1], proof' = 5, requiredIterations = 0\<rparr>"]
    by (simp add: scan_byte.simps)
  have other: "ValidatePoWork ?w \<lparr>msg = [1], proof' = 77, requiredIterations = 0\<rparr> = (False, None)"
    using ValidatePoWork_logging_hash [where p = ?w and digest = ?d and earlier = "[]"
        and pow = "\<lparr>msg = [1], proof' = 77, requiredIterations = 0\<rparr>"]
    by (simp add: scan_byte.simps PutUint64_def)
  show ?thesis
    by (rule exI[of _ ?d]) (simp only: five other, simp)
qed

text \<open>
  Claim C4. Run on the hash that records the calls made on it, whatever its digest
  function and whatever calls were made on it earlier, ValidatePoWork makes exactly three
  calls on the hash before it takes the digest: \<open>Reset\<close>, a \<open>Write\<close> of the message
  bytes, and a \<open>Write\<close> of the eight-byte little-endian two's-complement encoding of the
  nonce read as a signed 64-bit integer. The digest it scans is the digest of exactly
  these calls.
\<close>

theorem ValidatePoWork_feeds_msg_then_nonce:
  "ValidatePoWork (p\<lparr>getHash := \<lambda>u. logging_hash digest earlier\<rparr>) pow =
     scan_sum
       (digest (earlier @ [Reset_call, Write_call (msg pow),
                           Write_call (le64_twos_complement (sint (proof' pow)))]))
       (difficulty p)"
  by (simp add: ValidatePoWork_def hash_Reset_def hash_Write_def binary_Write_def hash_Sum_def
      logging_hash_def PutUint64_le64)

text \<open>
  Claim C6. SetDifficulty stores its argument and returns an error exactly when the
  argument is at most 0; SetTimeout stores its argument and returns an error exactly when
  it is negative; each leaves every other field of the worker as it was.
\<close>

theorem setters_store_and_report:
  "SetDifficulty p n =
     (p\<lparr>difficulty := n\<rparr>,
      if sint n \<le> 0 then Some (errors_New ''Difficulty must be at least 1'') else None)
   \<and> SetTimeout p ms =
     (p\<lparr>maxWait := ms\<rparr>,
      if sint ms < 0 then Some (errors_New ''Timeout must be greater than or equal to 0'')
      else None)"
  by (simp add: SetDifficulty_def SetTimeout_def)

section \<open>The search loop\<close>

lemma advance_0: "advance 0 toR = toR"
  by (simp add: advance_def)

lemma advance_step:
  "toR\<lparr>requiredIterations := requiredIterations toR + 1, proof' := proof' toR + 1\<rparr> = advance 1 toR"
  by (simp add: advance_def)

lemma advance_advance [simp]: "advance i (advance (Suc 0) toR) = advance (Suc i) toR"
  by (simp add: advance_def add.assoc add.commute)


lemma search_loop_success_aux:
  assumes "search_loop p rt k toR = Some y"
  shows "\<forall>Q. y = Inr Q \<longrightarrow>
       (\<exists>j. Q = advance j toR \<and> ValidatePoWork p Q = (True, None) \<and>
            (\<forall>i<j. ValidatePoWork p (advance i toR) = (False, None) \<and>
                    \<not> timeout_ready p rt (k + i)))"
proof -
  let ?P = "\<lambda>p rt k toR y. \<forall>Q. y = Inr Q \<longrightarrow>
       (\<exists>j. Q = advance j toR \<and> ValidatePoWork p Q = (True, None) \<and>
            (\<forall>i<j. ValidatePoWork p (advance i toR) = (False, None) \<and>
                    \<not> timeout_ready p rt (k + i)))"
  show ?thesis
  proof (rule search_loop.raw_induct[where P = ?P, OF _ assms])
    fix loop :: "'a Worker \<Rightarrow> timer \<Rightarrow> nat \<Rightarrow> PoWork \<Rightarrow> (error + PoWork) option"
    fix p rt k toR y
    assume IH: "\<And>p rt k toR y. loop p rt k toR = Some y \<Longrightarrow> ?P p rt k toR y"
    assume body: "(case ValidatePoWork p toR of
        (res, None) \<Rightarrow>
          if res then Some (Inr toR)
          else (let toR' = toR\<lparr>requiredIterations := requiredIterations toR + 1,
                                  proof' := proof' toR + 1\<rparr>
                in if timeout_ready p rt k
                   then Some (Inl (errors_New ''Timed out while calculating proof of work''))
                   else loop p rt (k + 1) toR')
      | (res, Some err) \<Rightarrow> Some (Inl err)) = Some y"
    obtain res err where v: "ValidatePoWork p toR = (res, err)"
      by (cases "ValidatePoWork p toR")
    show "?P p rt k toR y"
    proof (intro allI impI)
      fix Q
      assume yQ: "y = Inr Q"
      have ne: "err = None" using body v yQ by (cases err) auto
      show "\<exists>j. Q = advance j toR \<and> ValidatePoWork p Q = (True, None) \<and>
              (\<forall>i<j. ValidatePoWork p (advance i toR) = (False, None) \<and>
                      \<not> timeout_ready p rt (k + i))"
      proof (cases res)
        case True
        then have "Q = toR" using body v ne yQ by simp
        then have "Q = advance 0 toR \<and> ValidatePoWork p Q = (True, None)"
          using v ne True by (simp add: advance_0)
        then show ?thesis by (intro exI[of _ 0]) auto
      next
        case False
        have nr: "\<not> timeout_ready p rt k"
          using body v ne False yQ by (auto simp: Let_def split: if_splits)
        have rec: "loop p rt (k + 1) (advance 1 toR) = Some y"
          using body v ne False nr by (simp add: Let_def advance_step)
        from IH[OF rec] yQ obtain j where
          j: "Q = advance j (advance 1 toR)" "ValidatePoWork p Q = (True, None)"
             "\<forall>i<j. ValidatePoWork p (advance i (advance 1 toR)) = (False, None) \<and>
                    \<not> timeout_ready p rt (k + 1 + i)"
          by blast
        have "\<forall>i<Suc j. ValidatePoWork p (advance i toR) = (False, None) \<and>
                      \<not> timeout_ready p rt (k + i)"
        proof (intro allI impI)
          fix i assume "i < Suc j"
          show "ValidatePoWork p (advance i toR) = (False, None) \<and> \<not> timeout_ready p rt (k + i)"
          proof (cases i)
            case 0
            then show ?thesis using v ne False nr by (simp add: advance_0)
          next
            case (Suc i')
            then have "i' < j" using \<open>i < Suc j\<close> by simp
            then show ?thesis using j(3) Suc by simp
          qed
        qed
        then show ?thesis using j(1,2) by (intro exI[of _ "Suc j"]) simp
      qed
    qed
  qed
qed

lemma search_loop_success:
  assumes "search_loop p rt k toR = Some (Inr Q)"
  obtains j where "Q = advance j toR" and "ValidatePoWork p Q = (True, None)"
    and "\<forall>i<j. ValidatePoWork p (advance i toR) = (False, None) \<and> \<not> timeout_ready p rt (k + i)"
  using search_loop_success_aux[OF assms] by blast


lemma advance_initial:
  "advance j \<lparr>msg = m, proof' = 0, requiredIterations = 0\<rparr>
     = \<lparr>msg = m, proof' = of_nat j, requiredIterations = of_nat j\<rparr>"
  by (simp add: advance_def)

lemma DoProofFor_success:
  assumes "DoProofFor p rt m = Some (Inr P)"
  obtains j where "P = \<lparr>msg = m, proof' = of_nat j, requiredIterations = of_nat j\<rparr>"
    and "ValidatePoWork p P = (True, None)"
    and "\<forall>i<j. ValidatePoWork p \<lparr>msg = m, proof' = of_nat i, requiredIterations = of_nat i\<rparr>
                  = (False, None) \<and> \<not> timeout_ready p rt i"
proof -
  from assms have "search_loop p rt 0 \<lparr>msg = m, proof' = 0, requiredIterations = 0\<rparr> = Some (Inr P)"
    by (simp add: DoProofFor_def)
  then obtain j where j: "P = advance j \<lparr>msg = m, proof' = 0, requiredIterations = 0\<rparr>"
     "ValidatePoWork p P = (True, None)"
     "\<forall>i<j. ValidatePoWork p (advance i \<lparr>msg = m, proof' = 0, requiredIterations = 0\<rparr>) = (False, None)
            \<and> \<not> timeout_ready p rt (0 + i)"
    by (rule search_loop_success)
  show thesis
    using j by (intro that[of j]) (simp_all add: advance_initial)
qed

text \<open>
  Claim C2. Every proof of work that DoProofFor returns is accepted by ValidatePoWork under
  the same worker: \<open>true\<close> with no error.
\<close>

theorem DoProofFor_result_validates:
  assumes "DoProofFor p rt m = Some (Inr P)"
  shows "ValidatePoWork p P = (True, None)"
  using assms by (rule DoProofFor_success)

lemma of_nat_mod_int64: "(of_nat (j mod 2 ^ 64) :: int64) = of_nat j"
  by (simp add: word_of_nat_eq_iff take_bit_eq_mod)

lemma first_success_below_wrap:
  assumes ok: "ValidatePoWork p \<lparr>msg = m, proof' = of_nat j, requiredIterations = of_nat j\<rparr> = (True, None)"
    and fails: "\<forall>i<j. ValidatePoWork p \<lparr>msg = m, proof' = of_nat i, requiredIterations = of_nat i\<rparr>
                  = (False, None)"
  shows "j < 2 ^ 64"
proof (rule ccontr)
  assume "\<not> j < 2 ^ 64"
  then have "j mod 2 ^ 64 < j"
    by (metis mod_less_divisor not_less order.strict_trans2 zero_less_numeral zero_less_power)
  with fails have
    "ValidatePoWork p \<lparr>msg = m, proof' = of_nat (j mod 2 ^ 64),
       requiredIterations = of_nat (j mod 2 ^ 64)\<rparr> = (False, None)"
    by blast
  with ok show False by (simp only: of_nat_mod_int64) simp
qed

lemma sint_of_nat_small: "j < 2 ^ 63 \<Longrightarrow> sint (of_nat j :: int64) = int j"
proof -
  assume "j < 2 ^ 63"
  then have "int j < 2 ^ 63" by (metis of_nat_less_iff of_nat_numeral of_nat_power)
  then show ?thesis
    by (simp add: sint_sbintrunc'[of "int j", where 'a = 64, simplified] signed_take_bit_int_eq_self)
qed

lemmas run_defs = demo_worker_def ValidatePoWork_def hash_Reset_def hash_Write_def binary_Write_def
  hash_Sum_def timeout_ready_def timeout_duration_def xor3_hash_def PutUint64_def scan_byte.simps

theorem DoProofFor_result_validates_witness:
  "DoProofFor (demo_worker 8 5000) \<lparr>clock = (\<lambda>k. 1000 * k), delivered = (\<lambda>k. True)\<rparr> []
     = Some (Inr \<lparr>msg = [], proof' = 3, requiredIterations = 3\<rparr>)
   \<and> ValidatePoWork (demo_worker 8 5000) \<lparr>msg = [], proof' = 3, requiredIterations = 3\<rparr>
     = (True, None)"
proof -
  have run: "DoProofFor (demo_worker 8 5000) \<lparr>clock = (\<lambda>k. 1000 * k), delivered = (\<lambda>k. True)\<rparr> []
     = Some (Inr \<lparr>msg = [], proof' = 3, requiredIterations = 3\<rparr>)"
    by (simp add: DoProofFor_def search_loop.simps run_defs)
  from DoProofFor_result_validates [OF run] run show ?thesis by simp
qed

lemma nonneg_sint_eq_uint: "0 \<le> sint n \<Longrightarrow> uint n = sint n" for n :: int64
proof -
  assume "0 \<le> sint n"
  moreover have "sint n < 2 ^ 64" using sint_lt[of n] by simp
  ultimately have "sint n mod 2 ^ 64 = sint n" by simp
  then show ?thesis by (simp only: uint_sint_int64)
qed

lemma signed_less_unsigned: "0 \<le> sint n \<Longrightarrow> sint n < sint q \<Longrightarrow> n < q" for n q :: int64
proof -
  assume n: "0 \<le> sint n" and lt: "sint n < sint q"
  have "uint n = sint n" using n by (rule nonneg_sint_eq_uint)
  moreover have "uint q = sint q" using n lt by (intro nonneg_sint_eq_uint) simp
  ultimately show ?thesis using lt by (simp only: word_less_def)
qed

text \<open>
  Claim C7. When DoProofFor returns a proof of work for message \<open>m\<close>, the proof carries
  \<open>m\<close> and is valid; its iteration count equals its nonce; every nonce before it in
  the order of the search (0, 1, 2, ..., the counter read as unsigned) was tried and found
  plainly invalid, so the nonce is the first valid one and the count is the number of
  candidates tried before it; in particular no nonce \<open>n\<close> with \<open>0 \<le> n\<close> below it is valid;
  a run of the same worker on the same message under any other timing that succeeds
  returns the same proof; and when the timeout channel is ready at one of the first
  \<open>2 ^ 63\<close> checks, as it is when every attempt takes a nanosecond or more and the
  runtime sends the timer's value as soon as it is due, the search ends before the nonce
  can wrap, so the nonce is not negative.
\<close>

theorem DoProofFor_least_nonce:
  assumes "DoProofFor p rt m = Some (Inr P)"
  shows "msg P = m \<and> ValidatePoWork p P = (True, None) \<and> requiredIterations P = proof' P
     \<and> (\<forall>n. n < proof' P \<longrightarrow>
            ValidatePoWork p \<lparr>msg = m, proof' = n, requiredIterations = n\<rparr> = (False, None))
     \<and> (\<forall>n. 0 \<le> sint n \<and> sint n < sint (proof' P) \<longrightarrow>
            ValidatePoWork p \<lparr>msg = m, proof' = n, requiredIterations = n\<rparr> = (False, None))
     \<and> (\<forall>rt' P'. DoProofFor p rt' m = Some (Inr P') \<longrightarrow> P' = P)
     \<and> ((\<exists>k. k < 2 ^ 63 \<and> timeout_ready p rt k) \<longrightarrow> 0 \<le> sint (proof' P))
     \<and> ((\<forall>k. k \<le> clock rt k \<and> delivered rt k) \<longrightarrow> 0 \<le> sint (proof' P))"
proof -
  from assms obtain j where
    P: "P = \<lparr>msg = m, proof' = of_nat j, requiredIterations = of_nat j\<rparr>"
    and ok: "ValidatePoWork p P = (True, None)"
    and before: "\<forall>i<j. ValidatePoWork p \<lparr>msg = m, proof' = of_nat i, requiredIterations = of_nat i\<rparr>
                  = (False, None) \<and> \<not> timeout_ready p rt i"
    by (rule DoProofFor_success)
  have j64: "j < 2 ^ 64"
    using ok before unfolding P by (intro first_success_below_wrap[of p m j]) auto
  have unat_j: "unat (of_nat j :: int64) = j"
    using j64 by (simp add: unat_of_nat)
  have least: "\<forall>n. n < proof' P \<longrightarrow>
            ValidatePoWork p \<lparr>msg = m, proof' = n, requiredIterations = n\<rparr> = (False, None)"
  proof (intro allI impI)
    fix n :: int64
    assume "n < proof' P"
    then have "unat n < j" using unat_j by (simp add: P word_less_nat_alt)
    with before have
      "ValidatePoWork p \<lparr>msg = m, proof' = of_nat (unat n), requiredIterations = of_nat (unat n)\<rparr>
         = (False, None)"
      by blast
    then show "ValidatePoWork p \<lparr>msg = m, proof' = n, requiredIterations = n\<rparr> = (False, None)"
      by simp
  qed
  have same: "\<forall>rt' P'. DoProofFor p rt' m = Some (Inr P') \<longrightarrow> P' = P"
  proof (intro allI impI)
    fix rt' P'
    assume "DoProofFor p rt' m = Some (Inr P')"
    then obtain j' where
      P': "P' = \<lparr>msg = m, proof' = of_nat j', requiredIterations = of_nat j'\<rparr>"
      and ok': "ValidatePoWork p P' = (True, None)"
      and before': "\<forall>i<j'. ValidatePoWork p \<lparr>msg = m, proof' = of_nat i, requiredIterations = of_nat i\<rparr>
                  = (False, None) \<and> \<not> timeout_ready p rt' i"
      by (rule DoProofFor_success)
    have "\<not> j < j'" using before' ok unfolding P by auto
    moreover have "\<not> j' < j" using before ok' unfolding P' by auto
    ultimately have "j' = j" by simp
    then show "P' = P" by (simp add: P P')
  qed
  have small: "j < 2 ^ 63" if "k < 2 ^ 63" and "timeout_ready p rt k" for k
  proof (rule ccontr)
    assume "\<not> j < 2 ^ 63"
    then have "k < j" using that(1) by simp
    with before have "\<not> timeout_ready p rt k" by blast
    with that(2) show False by simp
  qed
  have fired: "(\<exists>k. k < 2 ^ 63 \<and> timeout_ready p rt k) \<longrightarrow> 0 \<le> sint (proof' P)"
  proof
    assume "\<exists>k. k < 2 ^ 63 \<and> timeout_ready p rt k"
    then obtain k where "k < 2 ^ 63" and "timeout_ready p rt k" by blast
    then have "j < 2 ^ 63" by (rule small)
    then show "0 \<le> sint (proof' P)" by (simp add: P sint_of_nat_small)
  qed
  have signed: "(\<forall>k. k \<le> clock rt k \<and> delivered rt k) \<longrightarrow> 0 \<le> sint (proof' P)"
  proof
    assume prompt: "\<forall>k. k \<le> clock rt k \<and> delivered rt k"
    have "timeout_duration p < 2 ^ 63"
      unfolding timeout_duration_def using sint_lt[of "maxWait p * 1000000"] by simp
    moreover have "int (2 ^ 63 - 1) \<le> int (clock rt (2 ^ 63 - 1))"
      using prompt by (simp only: of_nat_le_iff)
    ultimately have "timeout_duration p \<le> int (clock rt (2 ^ 63 - 1))" by simp
    moreover have "delivered rt (2 ^ 63 - 1)" using prompt by blast
    ultimately have "timeout_ready p rt (2 ^ 63 - 1)" by (simp add: timeout_ready_def)
    moreover have "(2 ^ 63 - 1 :: nat) < 2 ^ 63" by simp
    ultimately have "j < 2 ^ 63" by (intro small[of "2 ^ 63 - 1"])
    then show "0 \<le> sint (proof' P)" by (simp add: P sint_of_nat_small)
  qed
  have least_signed: "\<forall>n. 0 \<le> sint n \<and> sint n < sint (proof' P) \<longrightarrow>
            ValidatePoWork p \<lparr>msg = m, proof' = n, requiredIterations = n\<rparr> = (False, None)"
    using least signed_less_unsigned by blast
  have fields: "msg P = m" "requiredIterations P = proof' P" by (simp_all add: P)
  show ?thesis using fields ok least least_signed same fired signed by (intro conjI)
qed

theorem DoProofFor_least_nonce_witness:
  "DoProofFor (demo_worker 8 5000) \<lparr>clock = (\<lambda>k. k), delivered = (\<lambda>k. True)\<rparr> []
     = Some (Inr \<lparr>msg = [], proof' = 3, requiredIterations = 3\<rparr>)
   \<and> ValidatePoWork (demo_worker 8 5000) \<lparr>msg = [], proof' = 2, requiredIterations = 2\<rparr>
     = (False, None)
   \<and> DoProofFor (demo_worker 8 5000) \<lparr>clock = (\<lambda>k. 7 * k), delivered = (\<lambda>k. False)\<rparr> []
     = Some (Inr \<lparr>msg = [], proof' = 3, requiredIterations = 3\<rparr>)
   \<and> 0 \<le> sint (proof' \<lparr>msg = [], proof' = 3, requiredIterations = 3\<rparr>)"
proof -
  let ?P = "\<lparr>msg = [], proof' = 3 :: int64, requiredIterations = 3 :: int64\<rparr>"
  let ?rt = "\<lparr>clock = (\<lambda>k. k), delivered = (\<lambda>k. True)\<rparr>"
  let ?rt' = "\<lparr>clock = (\<lambda>k. 7 * k), delivered = (\<lambda>k. False)\<rparr>"
  have run: "DoProofFor (demo_worker 8 5000) ?rt [] = Some (Inr ?P)"
    by (simp add: DoProofFor_def search_loop.simps run_defs)
  have run': "DoProofFor (demo_worker 8 5000) ?rt' [] = Some (Inr ?P)"
    by (simp add: DoProofFor_def search_loop.simps run_defs)
  note t = DoProofFor_least_nonce [OF run]
  from t have "\<forall>n. n < proof' ?P \<longrightarrow>
      ValidatePoWork (demo_worker 8 5000) \<lparr>msg = [], proof' = n, requiredIterations = n\<rparr> = (False, None)"
    by blast
  then have two: "ValidatePoWork (demo_worker 8 5000) \<lparr>msg = [], proof' = 2, requiredIterations = 2\<rparr>
     = (False, None)"
    by simp
  from t have "(\<forall>k. k \<le> clock ?rt k \<and> delivered ?rt k) \<longrightarrow> 0 \<le> sint (proof' ?P)" by blast
  then have "0 \<le> sint (proof' ?P)" by simp
  with run run' two show ?thesis by simp
qed


text \<open>
  A runtime that has not sent the timer's value by the time the search succeeds (as
  happens with the asynchronous timer channels before Go 1.23) lets a search with
  timeout 0 run to the first valid nonce.
\<close>

lemma zero_timeout_late_timer_succeeds:
  "DoProofFor (demo_worker 8 0) \<lparr>clock = (\<lambda>k. 1000 * k), delivered = (\<lambda>k. False)\<rparr> []
     = Some (Inr \<lparr>msg = [], proof' = 3, requiredIterations = 3\<rparr>)"
  by (simp add: DoProofFor_def search_loop.simps run_defs)




lemma ValidatePoWork_shape:
  "(\<exists>err. ValidatePoWork p pow = (False, Some err))
   \<or> (\<exists>s. ValidatePoWork p pow = scan_sum (Sum_impl (getHash p ()) s []) (difficulty p))"
  by (auto simp: ValidatePoWork_def hash_Reset_def hash_Write_def binary_Write_def hash_Sum_def
      split: prod.splits option.splits)

text \<open>
  Claim C10. With a stored difficulty of 0 or less, the scan of any digest (of fewer than
  \<open>2 ^ 63\<close> bits) returns a plain \<open>false\<close> or the buffer-overrun error, never
  \<open>true\<close>; so with a hash whose digests are that short ValidatePoWork never returns
  \<open>true\<close> and DoProofFor never returns a proof of work.
\<close>

theorem nonpositive_difficulty_never_valid:
  assumes "sint (difficulty p) \<le> 0"
  shows "(8 * length D < 2 ^ 63 \<longrightarrow>
            scan_sum D (difficulty p) = (False, None)
          \<or> scan_sum D (difficulty p)
              = (False, Some (errors_New ''Buffer overrun: not enough bits in hash'')))
       \<and> ((\<forall>s. 8 * length (Sum_impl (getHash p ()) s []) < 2 ^ 63) \<longrightarrow>
            fst (ValidatePoWork p pow) = False \<and> DoProofFor p rt m \<noteq> Some (Inr P))"
proof (intro conjI impI)
  assume "8 * length D < 2 ^ 63"
  with assms show "scan_sum D (difficulty p) = (False, None)
          \<or> scan_sum D (difficulty p)
              = (False, Some (errors_New ''Buffer overrun: not enough bits in hash''))"
    by (rule scan_sum_nonpositive)
next
  assume short: "\<forall>s. 8 * length (Sum_impl (getHash p ()) s []) < 2 ^ 63"
  have never: "fst (ValidatePoWork p pow') = False" for pow'
    using ValidatePoWork_shape[of p pow']
  proof
    assume "\<exists>err. ValidatePoWork p pow' = (False, Some err)"
    then show ?thesis by auto
  next
    assume "\<exists>s. ValidatePoWork p pow' = scan_sum (Sum_impl (getHash p ()) s []) (difficulty p)"
    then obtain s where
      s: "ValidatePoWork p pow' = scan_sum (Sum_impl (getHash p ()) s []) (difficulty p)" ..
    from short have "8 * length (Sum_impl (getHash p ()) s []) < 2 ^ 63" ..
    with assms have "scan_sum (Sum_impl (getHash p ()) s []) (difficulty p) = (False, None)
          \<or> scan_sum (Sum_impl (getHash p ()) s []) (difficulty p)
              = (False, Some (errors_New ''Buffer overrun: not enough bits in hash''))"
      by (rule scan_sum_nonpositive)
    then show ?thesis unfolding s by auto
  qed
  show "fst (ValidatePoWork p pow) = False" by (rule never)
  show "DoProofFor p rt m \<noteq> Some (Inr P)"
  proof
    assume "DoProofFor p rt m = Some (Inr P)"
    then have "ValidatePoWork p P = (True, None)" by (rule DoProofFor_success)
    then show False using never[of P] by simp
  qed
qed

theorem nonpositive_difficulty_never_valid_witness:
  "sint (difficulty (demo_worker (- 3) 5000)) \<le> 0
   \<and> scan_sum [0, 0] (difficulty (demo_worker (- 3) 5000))
       = (False, Some (errors_New ''Buffer overrun: not enough bits in hash''))
   \<and> fst (ValidatePoWork (demo_worker (- 3) 5000) \<lparr>msg = [3], proof' = 0, requiredIterations = 0\<rparr>)
       = False
   \<and> DoProofFor (demo_worker (- 3) 5000) \<lparr>clock = (\<lambda>k. 5000000000), delivered = (\<lambda>k. True)\<rparr> [3]
       \<noteq> Some (Inr \<lparr>msg = [3], proof' = 0, requiredIterations = 0\<rparr>)"
proof -
  have d: "sint (difficulty (demo_worker (- 3) 5000)) \<le> 0"
    by (simp add: demo_worker_def)
  have short: "\<forall>s. 8 * length (Sum_impl (getHash (demo_worker (- 3) 5000) ()) s []) < 2 ^ 63"
    by (simp add: demo_worker_def xor3_hash_def)
  have len: "8 * length [0, 0 :: byte] < 2 ^ 63" by simp
  have ov: "scan_sum [0, 0] (difficulty (demo_worker (- 3) 5000)) \<noteq> (False, None)"
    by (simp add: demo_worker_def scan_byte.simps)
  note t = nonpositive_difficulty_never_valid [OF d, of "[0, 0]"
      "\<lparr>msg = [3], proof' = 0, requiredIterations = 0\<rparr>" "\<lparr>clock = (\<lambda>k. 5000000000), delivered = (\<lambda>k. True)\<rparr>" "[3]"
      "\<lparr>msg = [3], proof' = 0, requiredIterations = 0\<rparr>"]
  from t d short len ov show ?thesis by blast
qed

end
